theory Spec2Isabelle
  imports Main "HOL-Library.AList" "HOL-Library.Sublist"
begin

section \<open>The container visibility groups of Aloha Editor's UI plugin\<close>

text \<open>
  A shallow embedding of \<^verbatim>\<open>src/plugins/common/ui/lib/container.js\<close>: the module-private
  table \<^verbatim>\<open>showGroups\<close>, the helpers \<^verbatim>\<open>generateKeyForShowOnValue\<close>,
  \<^verbatim>\<open>addToShowGroup\<close>, \<^verbatim>\<open>coerceShowOnToPredicate\<close> and \<^verbatim>\<open>toggleContainers\<close>, the class
  \<^verbatim>\<open>Container\<close> and the static method \<^verbatim>\<open>Container.showContainersForElements\<close>.

  JavaScript objects are shared by reference, so containers live in an explicit heap and
  are named by their address; every operation takes the module state and returns the new
  one. A \<^verbatim>\<open>TypeError\<close> raised by the JavaScript is a value of the result.
\<close>

subsection \<open>JavaScript values that occur as a \<^verbatim>\<open>showOn\<close> setting\<close>

datatype error = TypeError

text \<open>
  Function objects. Equality of two values of this type stands for reference equality of
  two function objects, so every function carries a tag that tells it apart from every
  other instance with the same text and behaviour.
  \<^item> \<open>Native i src f\<close> is a function supplied by the caller: \<open>src\<close> is the text its
    \<^verbatim>\<open>toString()\<close> returns, and \<open>f\<close> gives, for an element or \<^verbatim>\<open>null\<close> (\<open>None\<close>),
    whether the value it returns is truthy. Caller functions are taken to be pure and
    not to raise.
  \<^item> \<open>ProtoShouldShow\<close> is the method \<^verbatim>\<open>shouldShow\<close> of the class prototype.
  \<^item> The other four are the closures that \<^verbatim>\<open>coerceShowOnToPredicate\<close> creates, one
    constructor for each function literal in it; the number is the serial of the
    allocation, the second argument the value of the captured variable \<^verbatim>\<open>showOn\<close>.
\<close>

datatype 'e fn =
    Native nat string "'e option \<Rightarrow> bool"
  | ProtoShouldShow
  | ReturnShowOn nat bool
  | IsShowOn nat string
  | ReturnTrue nat
  | ReturnFalse nat

text \<open>The kinds of value for which \<^verbatim>\<open>jQuery.type\<close> answers none of
  \<^verbatim>\<open>undefined\<close>, \<^verbatim>\<open>null\<close>, \<^verbatim>\<open>boolean\<close>, \<^verbatim>\<open>string\<close>, \<^verbatim>\<open>function\<close>.\<close>

datatype other_kind = KNumber | KArray | KDate | KRegExp | KObject | KError

text \<open>A value \<open>VOther k s\<close> is a value of kind \<open>k\<close> whose \<^verbatim>\<open>toString()\<close> returns \<open>s\<close>.\<close>

datatype 'e jsval =
    VUndefined
  | VNull
  | VBoolean bool
  | VString string
  | VFunction "'e fn"
  | VOther other_kind string

fun kind_name :: "other_kind \<Rightarrow> string" where
  "kind_name KNumber = ''number''"
| "kind_name KArray = ''array''"
| "kind_name KDate = ''date''"
| "kind_name KRegExp = ''regexp''"
| "kind_name KObject = ''object''"
| "kind_name KError = ''error''"

text \<open>
  Modelled from the spec: \<^verbatim>\<open>jQuery.type\<close> is a function of the jQuery library and is not
  among the source files. It names the kind of a value, so that a key encodes the kind
  and the value: the comment of \<^verbatim>\<open>generateKeyForShowOnValue\<close> gives \<^verbatim>\<open>"boolean:true"\<close>
  as an example of a key, and \<^verbatim>\<open>coerceShowOnToPredicate\<close> switches on the answers
  \<^verbatim>\<open>'function'\<close>, \<^verbatim>\<open>'boolean'\<close>, \<^verbatim>\<open>'string'\<close> and \<^verbatim>\<open>'undefined'\<close>.
\<close>

fun jQuery_type :: "'e jsval \<Rightarrow> string" where
  "jQuery_type VUndefined = ''undefined''"
| "jQuery_type VNull = ''null''"
| "jQuery_type (VBoolean b) = ''boolean''"
| "jQuery_type (VString s) = ''string''"
| "jQuery_type (VFunction f) = ''function''"
| "jQuery_type (VOther k s) = kind_name k"

text \<open>The text of a function object (\<^verbatim>\<open>Function.prototype.toString\<close>); for the function
  literals of the module it is their source text, white space normalised.\<close>

fun fn_toString :: "'e fn \<Rightarrow> string" where
  "fn_toString (Native i src f) = src"
| "fn_toString ProtoShouldShow = ''function() { return true; }''"
| "fn_toString (ReturnShowOn i b) = ''function() { return showOn; }''"
| "fn_toString (IsShowOn i s) =
     ''function( el ) { return el ? jQuery( el ).is( showOn ) : false; }''"
| "fn_toString (ReturnTrue i) = ''function() { return true; }''"
| "fn_toString (ReturnFalse i) = ''function() { return false; }''"

text \<open>The method call \<^verbatim>\<open>showOn.toString()\<close>. Reading a property of \<^verbatim>\<open>undefined\<close> or of
  \<^verbatim>\<open>null\<close> raises a \<^verbatim>\<open>TypeError\<close>.\<close>

fun toString :: "'e jsval \<Rightarrow> error + string" where
  "toString VUndefined = Inl TypeError"
| "toString VNull = Inl TypeError"
| "toString (VBoolean b) = Inr (if b then ''true'' else ''false'')"
| "toString (VString s) = Inr s"
| "toString (VFunction f) = Inr (fn_toString f)"
| "toString (VOther k s) = Inr s"

text \<open>
  Calling a function object on one argument and testing the result for truthiness.
  The parameter \<open>jQuery_is e sel\<close> stands for \<^verbatim>\<open>jQuery( e ).is( sel )\<close>, the selector
  matching of the jQuery library, taken as a total relation between elements and
  selector strings. An element that is not \<^verbatim>\<open>null\<close> is truthy. A call of the model
  always answers: a caller function that throws and a selector that jQuery refuses are
  outside the model, so nothing below says when a pass returns, only what holds when it
  has returned and what it did until it stopped.
\<close>

fun call :: "('e \<Rightarrow> string \<Rightarrow> bool) \<Rightarrow> 'e fn \<Rightarrow> 'e option \<Rightarrow> bool" where
  "call jQuery_is (Native i src f) el = f el"
| "call jQuery_is ProtoShouldShow el = True"
| "call jQuery_is (ReturnShowOn i b) el = b"
| "call jQuery_is (IsShowOn i s) el =
     (case el of Some e \<Rightarrow> jQuery_is e s | None \<Rightarrow> False)"
| "call jQuery_is (ReturnTrue i) el = True"
| "call jQuery_is (ReturnFalse i) el = False"

subsection \<open>Containers, groups and the module state\<close>

text \<open>The rendered wrapper element of a container: a \<^verbatim>\<open>div\<close> with a class attribute.\<close>

datatype jq = Div string

record 'e container =
  visible :: bool
  element :: "jq option"
  activated :: bool
  showOn :: "'e jsval"
  shouldShow :: "'e fn"

text \<open>The fields that \<^verbatim>\<open>Class.extend\<close> puts on the prototype of \<^verbatim>\<open>Container\<close>.\<close>

definition Container_prototype :: "'e container" where
  "Container_prototype =
     \<lparr>visible = True, element = None, activated = False,
      showOn = VBoolean True, shouldShow = ProtoShouldShow\<rparr>"

text \<open>A value of \<^verbatim>\<open>showGroups\<close>: the object \<^verbatim>\<open>{ shouldShow: ..., containers: [...] }\<close>;
  the array holds the addresses of the member containers.\<close>

record 'e group =
  group_shouldShow :: "'e fn"
  group_containers :: "nat list"

text \<open>
  The module state: \<^verbatim>\<open>showGroups\<close> as an association list in the order in which the
  properties were created (the order in which \<^verbatim>\<open>for ... in\<close> visits them; no key is an
  array index, since every key contains a colon), the heap of container objects, and
  the number of closures allocated so far.
\<close>

record 'e state =
  showGroups :: "(string \<times> 'e group) list"
  heap :: "'e container list"
  closures :: nat

definition initial :: "'e state" where
  "initial = \<lparr>showGroups = [], heap = [], closures = 0\<rparr>"

subsection \<open>The private helpers\<close>

text \<open>\<^verbatim>\<open>return jQuery.type( showOn ) + ':' + showOn.toString();\<close>\<close>

definition generateKeyForShowOnValue :: "'e jsval \<Rightarrow> error + string" where
  "generateKeyForShowOnValue v =
     (case toString v of
        Inl e \<Rightarrow> Inl e
      | Inr s \<Rightarrow> Inr (jQuery_type v @ '':'' @ s))"

text \<open>
  The \<^verbatim>\<open>switch\<close> on \<^verbatim>\<open>jQuery.type( showOn )\<close>, its cases in the order of the source. The
  number is the count of closures allocated before the call; it is returned advanced
  when a function literal is evaluated.
\<close>

fun coerceShowOnToPredicate :: "'e jsval \<Rightarrow> nat \<Rightarrow> 'e fn \<times> nat" where
  "coerceShowOnToPredicate (VFunction f) n = (f, n)"
| "coerceShowOnToPredicate (VBoolean b) n = (ReturnShowOn n b, Suc n)"
| "coerceShowOnToPredicate (VString s) n = (IsShowOn n s, Suc n)"
| "coerceShowOnToPredicate VUndefined n = (ReturnTrue n, Suc n)"
| "coerceShowOnToPredicate VNull n = (ReturnFalse n, Suc n)"
| "coerceShowOnToPredicate (VOther k s) n = (ReturnFalse n, Suc n)"

text \<open>
  \<^verbatim>\<open>addToShowGroup( container )\<close>, for the container at address \<open>c\<close>. A group that
  exists gets the container pushed onto its array; otherwise a new property is added to
  \<^verbatim>\<open>showGroups\<close>. In both cases the group's predicate is stored in the container.
\<close>

definition addToShowGroup :: "nat \<Rightarrow> 'e state \<Rightarrow> error + 'e state" where
  "addToShowGroup c st =
     (case generateKeyForShowOnValue (showOn (heap st ! c)) of
        Inl e \<Rightarrow> Inl e
      | Inr key \<Rightarrow>
          (case map_of (showGroups st) key of
             Some grp \<Rightarrow>
               Inr (st\<lparr>showGroups :=
                          AList.map_entry key
                            (\<lambda>g. g\<lparr>group_containers := group_containers g @ [c]\<rparr>)
                            (showGroups st),
                        heap := (heap st)[c := (heap st ! c)
                                  \<lparr>shouldShow := group_shouldShow grp\<rparr>]\<rparr>)
           | None \<Rightarrow>
               (case coerceShowOnToPredicate (showOn (heap st ! c)) (closures st) of
                  (p, n) \<Rightarrow>
                    Inr (st\<lparr>showGroups := showGroups st @
                               [(key, \<lparr>group_shouldShow = p, group_containers = [c]\<rparr>)],
                             heap := (heap st)[c := (heap st ! c)\<lparr>shouldShow := p\<rparr>],
                             closures := n\<rparr>))))"

subsection \<open>The class \<^verbatim>\<open>Container\<close>\<close>

text \<open>
  \<^verbatim>\<open>new Container( settings )\<close>. The argument is \<open>None\<close> when the constructor is
  called without a settings object (reading \<^verbatim>\<open>settings.showOn\<close> then raises), and
  \<open>Some v\<close> for a settings object whose property \<^verbatim>\<open>showOn\<close> reads as \<open>v\<close>
  (\<open>VUndefined\<close> when the object has no such property). The new object gets the next
  free address; when the constructor raises, no reference to it remains and the state is
  the one before the call.
\<close>

definition new_object :: "'e jsval \<Rightarrow> 'e container" where
  "new_object settings_showOn = Container_prototype\<lparr>showOn := settings_showOn\<rparr>"

definition Container_constructor ::
  "'e jsval option \<Rightarrow> 'e state \<Rightarrow> error + (nat \<times> 'e state)" where
  "Container_constructor settings st =
     (case settings of
        None \<Rightarrow> Inl TypeError
      | Some settings_showOn \<Rightarrow>
          (case addToShowGroup (length (heap st))
                  (st\<lparr>heap := heap st @ [new_object settings_showOn]\<rparr>) of
             Inl e \<Rightarrow> Inl e
           | Inr st' \<Rightarrow> Inr (length (heap st), st')))"

text \<open>\<^verbatim>\<open>render\<close>: \<^verbatim>\<open>this.element = jQuery( '<div>', { 'class': 'aloha-ui-container' } )\<close>.\<close>

definition Container_render :: "nat \<Rightarrow> 'e state \<Rightarrow> 'e state" where
  "Container_render this st =
     st\<lparr>heap := (heap st)[this := (heap st ! this)
           \<lparr>element := Some (Div ''aloha-ui-container'')\<rparr>]\<rparr>"

text \<open>
  \<^verbatim>\<open>show\<close> and \<^verbatim>\<open>hide\<close>: \<^verbatim>\<open>this.element.show(); this.visible = true;\<close>. While the
  container has not been rendered \<^verbatim>\<open>this.element\<close> is \<^verbatim>\<open>null\<close> and the method call on
  it raises before the flag is written. jQuery's \<^verbatim>\<open>show\<close> and \<^verbatim>\<open>hide\<close> act on the
  document only.
\<close>

definition Container_show :: "nat \<Rightarrow> 'e state \<Rightarrow> error + 'e state" where
  "Container_show this st =
     (case element (heap st ! this) of
        None \<Rightarrow> Inl TypeError
      | Some el \<Rightarrow> Inr (st\<lparr>heap := (heap st)[this := (heap st ! this)\<lparr>visible := True\<rparr>]\<rparr>))"

definition Container_hide :: "nat \<Rightarrow> 'e state \<Rightarrow> error + 'e state" where
  "Container_hide this st =
     (case element (heap st ! this) of
        None \<Rightarrow> Inl TypeError
      | Some el \<Rightarrow> Inr (st\<lparr>heap := (heap st)[this := (heap st ! this)\<lparr>visible := False\<rparr>]\<rparr>))"

subsection \<open>Toggling and the evaluation pass\<close>

text \<open>
  What an evaluation pass does is recorded as a trace: \<open>Test f el\<close> for a call of the
  predicate \<open>f\<close> on \<open>el\<close>, and \<open>Invoke action c\<close> for the call of the method named
  \<open>action\<close> on the container at address \<open>c\<close>.
\<close>

datatype 'e event = Test "'e fn" "'e option" | Invoke string nat

fun is_Test :: "'e event \<Rightarrow> bool" where
  "is_Test (Test f el) = True"
| "is_Test (Invoke action c) = False"

text \<open>\<^verbatim>\<open>containers[ j ][ action ]()\<close>, for \<open>action\<close> one of \<^verbatim>\<open>'show'\<close> and \<^verbatim>\<open>'hide'\<close>.\<close>

definition invoke :: "string \<Rightarrow> nat \<Rightarrow> 'e state \<Rightarrow> error + 'e state" where
  "invoke action c st =
     (if action = ''show'' then Container_show c st else Container_hide c st)"

text \<open>The loop \<^verbatim>\<open>while ( j ) { containers[ --j ][ action ](); }\<close>, started at \<open>j\<close>.
  The result holds the error that ended it, if any, the state and the trace.\<close>

fun toggle_loop ::
  "string \<Rightarrow> nat list \<Rightarrow> nat \<Rightarrow> 'e state \<Rightarrow> error option \<times> 'e state \<times> 'e event list" where
  "toggle_loop action containers 0 st = (None, st, [])"
| "toggle_loop action containers (Suc j) st =
     (case invoke action (containers ! j) st of
        Inl e \<Rightarrow> (Some e, st, [Invoke action (containers ! j)])
      | Inr st' \<Rightarrow>
          (case toggle_loop action containers j st' of
             (r, st'', tr) \<Rightarrow> (r, st'', Invoke action (containers ! j) # tr)))"

definition toggleContainers ::
  "nat list \<Rightarrow> string \<Rightarrow> 'e state \<Rightarrow> error option \<times> 'e state \<times> 'e event list" where
  "toggleContainers containers action st =
     (if action \<noteq> ''show'' \<and> action \<noteq> ''hide'' then (None, st, [])
      else toggle_loop action containers (length containers) st)"

text \<open>
  The inner loop of \<^verbatim>\<open>showContainersForElements\<close>, started at \<open>j\<close>, with \<open>p\<close> the
  function in the variable \<^verbatim>\<open>shouldShow\<close>:
  \<^verbatim>\<open>while ( j ) { if ( shouldShow( elements[ --j ] ) ) { show = true; break; } }\<close>.
  It returns \<^verbatim>\<open>show\<close> and the trace of the calls.
\<close>

fun test_loop ::
  "('e \<Rightarrow> string \<Rightarrow> bool) \<Rightarrow> 'e fn \<Rightarrow> 'e option list \<Rightarrow> nat \<Rightarrow> bool \<times> 'e event list" where
  "test_loop jQuery_is p elements 0 = (False, [])"
| "test_loop jQuery_is p elements (Suc j) =
     (if call jQuery_is p (elements ! j)
      then (True, [Test p (elements ! j)])
      else (case test_loop jQuery_is p elements j of
              (show, tr) \<Rightarrow> (show, Test p (elements ! j) # tr)))"

text \<open>
  The loop \<^verbatim>\<open>for ( groupKey in showGroups )\<close> over the properties that remain to be
  visited. \<^verbatim>\<open>group.shouldShow\<close> is a function object, which is truthy, so the
  \<^verbatim>\<open>continue\<close> of the source is never taken. Nothing in the body writes to
  \<^verbatim>\<open>showGroups\<close>, so the loop runs over the entries as they are at its start.
\<close>

fun groups_loop ::
  "('e \<Rightarrow> string \<Rightarrow> bool) \<Rightarrow> 'e option list \<Rightarrow> (string \<times> 'e group) list \<Rightarrow> 'e state
     \<Rightarrow> error option \<times> 'e state \<times> 'e event list" where
  "groups_loop jQuery_is elements [] st = (None, st, [])"
| "groups_loop jQuery_is elements ((groupKey, grp) # rest) st =
     (case test_loop jQuery_is (group_shouldShow grp) elements (length elements) of
        (show, tr1) \<Rightarrow>
          (case toggleContainers (group_containers grp)
                  (if show then ''show'' else ''hide'') st of
             (Some e, st', tr2) \<Rightarrow> (Some e, st', tr1 @ tr2)
           | (None, st', tr2) \<Rightarrow>
               (case groups_loop jQuery_is elements rest st' of
                  (r, st'', tr3) \<Rightarrow> (r, st'', tr1 @ tr2 @ tr3))))"

text \<open>
  \<^verbatim>\<open>Container.showContainersForElements( elements )\<close>. The argument is \<open>Some a\<close> for an
  object with a \<^verbatim>\<open>push\<close> function and the entries \<open>a\<close> (entries are elements or
  \<^verbatim>\<open>null\<close>), and \<open>None\<close> for anything else, an absent argument included. The result
  records the error that escaped, if any, the caller's array after the call, the state
  and the trace.
\<close>

record 'e result =
  raised :: "error option"
  argument_after :: "'e option list option"
  state_after :: "'e state"
  trace :: "'e event list"

definition test_sequence :: "'e option list option \<Rightarrow> 'e option list" where
  "test_sequence elements = (case elements of Some a \<Rightarrow> a @ [None] | None \<Rightarrow> [None])"

definition showContainersForElements ::
  "('e \<Rightarrow> string \<Rightarrow> bool) \<Rightarrow> 'e option list option \<Rightarrow> 'e state \<Rightarrow> 'e result" where
  "showContainersForElements jQuery_is elements st =
     (case groups_loop jQuery_is (test_sequence elements) (showGroups st) st of
        (r, st', tr) \<Rightarrow>
          \<lparr>raised = r,
           argument_after = (case elements of Some a \<Rightarrow> Some (a @ [None]) | None \<Rightarrow> None),
           state_after = st',
           trace = tr\<rparr>)"

subsection \<open>Runs of the module\<close>

text \<open>
  The operations a client has: constructing a container, rendering one that exists, and
  an evaluation pass. An operation that raises leaves the state it had reached.
\<close>

datatype 'e op =
    New "'e jsval option"
  | Render nat
  | ShowContainersForElements "'e option list option"

fun step :: "('e \<Rightarrow> string \<Rightarrow> bool) \<Rightarrow> 'e state \<Rightarrow> 'e op \<Rightarrow> 'e state" where
  "step jQuery_is st (New settings) =
     (case Container_constructor settings st of Inl e \<Rightarrow> st | Inr (c, st') \<Rightarrow> st')"
| "step jQuery_is st (Render c) =
     (if c < length (heap st) then Container_render c st else st)"
| "step jQuery_is st (ShowContainersForElements elements) =
     state_after (showContainersForElements jQuery_is elements st)"

definition run :: "('e \<Rightarrow> string \<Rightarrow> bool) \<Rightarrow> 'e op list \<Rightarrow> 'e state" where
  "run jQuery_is ops = foldl (step jQuery_is) initial ops"

section \<open>Notions used in the statements\<close>

text \<open>The addresses held by the groups of a table, in the order of the table.\<close>

definition members_of :: "(string \<times> 'e group) list \<Rightarrow> nat list" where
  "members_of gs = concat (map (\<lambda>(k, g). group_containers g) gs)"

text \<open>
  The invariant of the module state: no key occurs twice in \<^verbatim>\<open>showGroups\<close>; no
  container occurs twice among the members, in one group or in two; the members are
  exactly the containers that were constructed; no group is empty, its members are listed
  by ascending address (addresses are handed out in the order of construction, so this is
  the order of registration); and every member's \<^verbatim>\<open>showOn\<close> has the group's key and its
  \<^verbatim>\<open>shouldShow\<close> is the group's predicate, the same function object.
\<close>

definition invariant :: "'e state \<Rightarrow> bool" where
  "invariant st \<longleftrightarrow>
     distinct (map fst (showGroups st)) \<and>
     distinct (members_of (showGroups st)) \<and>
     set (members_of (showGroups st)) = {..<length (heap st)} \<and>
     (\<forall>(k, g) \<in> set (showGroups st).
        group_containers g \<noteq> [] \<and> sorted_wrt (<) (group_containers g) \<and>
        (\<forall>c \<in> set (group_containers g).
           generateKeyForShowOnValue (showOn (heap st ! c)) = Inr k \<and>
           shouldShow (heap st ! c) = group_shouldShow g))"

text \<open>Two states that differ at most in the \<^verbatim>\<open>visible\<close> flags of their containers.\<close>

definition registry_kept :: "'e state \<Rightarrow> 'e state \<Rightarrow> bool" where
  "registry_kept st st' \<longleftrightarrow>
     showGroups st' = showGroups st \<and> closures st' = closures st \<and>
     length (heap st') = length (heap st) \<and>
     (\<forall>i. element (heap st' ! i) = element (heap st ! i) \<and>
          activated (heap st' ! i) = activated (heap st ! i) \<and>
          showOn (heap st' ! i) = showOn (heap st ! i) \<and>
          shouldShow (heap st' ! i) = shouldShow (heap st ! i))"

text \<open>Pushing a container onto the array of a group.\<close>

abbreviation push :: "nat \<Rightarrow> 'e group \<Rightarrow> 'e group" where
  "push c \<equiv> (\<lambda>g. g\<lparr>group_containers := group_containers g @ [c]\<rparr>)"

text \<open>The entries of a list up to the first one that satisfies \<open>P\<close>, that one included.\<close>

fun walk :: "('a \<Rightarrow> bool) \<Rightarrow> 'a list \<Rightarrow> 'a list" where
  "walk P [] = []"
| "walk P (x # xs) = (if P x then [x] else x # walk P xs)"

text \<open>
  What a pass over the test sequence \<open>els\<close> is expected to do for one group: the
  decision is whether the predicate holds of some entry; the predicate is called on the
  entries from the last to the first, up to the first call that answers true; and the
  method that the decision names is called on the members from the last to the first.
\<close>

definition decision :: "('e \<Rightarrow> string \<Rightarrow> bool) \<Rightarrow> 'e option list \<Rightarrow> 'e group \<Rightarrow> bool" where
  "decision M els g = (\<exists>e \<in> set els. call M (group_shouldShow g) e)"

definition group_tests ::
  "('e \<Rightarrow> string \<Rightarrow> bool) \<Rightarrow> 'e option list \<Rightarrow> 'e group \<Rightarrow> 'e event list" where
  "group_tests M els g =
     map (Test (group_shouldShow g)) (walk (call M (group_shouldShow g)) (rev els))"

definition group_calls ::
  "('e \<Rightarrow> string \<Rightarrow> bool) \<Rightarrow> 'e option list \<Rightarrow> 'e group \<Rightarrow> 'e event list" where
  "group_calls M els g =
     map (Invoke (if decision M els g then ''show'' else ''hide''))
       (rev (group_containers g))"

text \<open>The same for a whole table: everything, the predicate calls alone, and the method
  calls alone.\<close>

definition script ::
  "('e \<Rightarrow> string \<Rightarrow> bool) \<Rightarrow> 'e option list \<Rightarrow> (string \<times> 'e group) list \<Rightarrow> 'e event list" where
  "script M els gs = concat (map (\<lambda>(k, g). group_tests M els g @ group_calls M els g) gs)"

definition all_tests ::
  "('e \<Rightarrow> string \<Rightarrow> bool) \<Rightarrow> 'e option list \<Rightarrow> (string \<times> 'e group) list \<Rightarrow> 'e event list" where
  "all_tests M els gs = concat (map (\<lambda>(k, g). group_tests M els g) gs)"

definition all_calls ::
  "('e \<Rightarrow> string \<Rightarrow> bool) \<Rightarrow> 'e option list \<Rightarrow> (string \<times> 'e group) list \<Rightarrow> 'e event list" where
  "all_calls M els gs = concat (map (\<lambda>(k, g). group_calls M els g) gs)"

text \<open>
  Calling \<^verbatim>\<open>showContainersForElements\<close> \<open>n\<close> times in a row with the same argument
  object: each call gets the array as the call before left it.
\<close>

fun repeated_calls ::
  "('e \<Rightarrow> string \<Rightarrow> bool) \<Rightarrow> nat \<Rightarrow> 'e option list option \<Rightarrow> 'e state
     \<Rightarrow> 'e option list option \<times> 'e state" where
  "repeated_calls jQuery_is 0 elements st = (elements, st)"
| "repeated_calls jQuery_is (Suc n) elements st =
     repeated_calls jQuery_is n
       (argument_after (showContainersForElements jQuery_is elements st))
       (state_after (showContainersForElements jQuery_is elements st))"

text \<open>
  Concrete inputs for the examples. Elements are given by their tag name, and a selector
  matches the elements of that tag name. In \<open>toolbar\<close> three containers are constructed,
  the first and the third with \<^verbatim>\<open>showOn: true\<close>, the second with \<^verbatim>\<open>showOn: 'img'\<close>, and
  all are rendered. In \<open>null_tests\<close> the first and the third get two different function
  objects with the same text. In \<open>pair\<close> the containers A and B, at the addresses 0 and
  1, both have \<^verbatim>\<open>showOn: true\<close>. In \<open>unrendered\<close> one container is constructed with
  \<^verbatim>\<open>showOn: false\<close> and \<^verbatim>\<open>render\<close> is not called on it.
\<close>

definition tag_is :: "string \<Rightarrow> string \<Rightarrow> bool" where
  "tag_is e sel \<longleftrightarrow> e = sel"

definition toolbar :: "string op list" where
  "toolbar =
     [New (Some (VBoolean True)), New (Some (VString ''img'')), New (Some (VBoolean True)),
      Render 0, Render 1, Render 2]"

definition null_tests :: "string op list" where
  "null_tests =
     [New (Some (VFunction
        (Native 1 ''function( el ) { return el === null; }'' (\<lambda>el. el = None)))),
      New (Some (VBoolean True)),
      New (Some (VFunction
        (Native 2 ''function( el ) { return el === null; }'' (\<lambda>el. el = None))))]"

definition pair :: "string op list" where
  "pair = [New (Some (VBoolean True)), New (Some (VBoolean True)), Render 0, Render 1]"

definition unrendered :: "string op list" where
  "unrendered = [New (Some (VBoolean False))]"

section \<open>Lemmas about the loops and the invariant\<close>

subsection \<open>Method calls on one container\<close>

lemma registry_kept_refl: "registry_kept st st"
  by (simp add: registry_kept_def)

lemma registry_kept_trans:
  "registry_kept st st' \<Longrightarrow> registry_kept st' st'' \<Longrightarrow> registry_kept st st''"
  by (simp add: registry_kept_def)

lemma invoke_cases:
  "invoke action c st = Inl TypeError \<and> element (heap st ! c) = None
   \<or> (\<exists>el. element (heap st ! c) = Some el \<and>
        invoke action c st =
          Inr (st\<lparr>heap := (heap st)[c := (heap st ! c)\<lparr>visible := (action = ''show'')\<rparr>]\<rparr>))"
  by (cases "element (heap st ! c)")
     (simp_all add: invoke_def Container_show_def Container_hide_def)

lemma invoke_kept:
  assumes "invoke action c st = Inr st'"
  shows "registry_kept st st'"
proof -
  from invoke_cases [of action c st] assms
  have st': "st' = st\<lparr>heap := (heap st)[c := (heap st ! c)\<lparr>visible := (action = ''show'')\<rparr>]\<rparr>"
    by auto
  show ?thesis
    unfolding registry_kept_def st'
    by (cases "c < length (heap st)") (auto simp: nth_list_update list_update_beyond not_less)
qed



subsection \<open>The toggling loop\<close>

lemma toggle_loop_kept:
  "toggle_loop action cs j st = (r, st', tr) \<Longrightarrow> registry_kept st st'"
proof (induction j arbitrary: st r st' tr)
  case 0
  then show ?case by (simp add: registry_kept_refl)
next
  case (Suc j)
  show ?case
  proof (cases "invoke action (cs ! j) st")
    case (Inl e)
    with Suc.prems show ?thesis by (simp add: registry_kept_refl)
  next
    case (Inr st1)
    obtain r2 st2 tr2 where rest: "toggle_loop action cs j st1 = (r2, st2, tr2)"
      by (cases "toggle_loop action cs j st1") auto
    with Inr Suc.prems have "st' = st2" by simp
    with Suc.IH [OF rest] invoke_kept [OF Inr] show ?thesis
      by (blast intro: registry_kept_trans)
  qed
qed



lemma toggle_loop_trace:
  "j \<le> length cs \<Longrightarrow> toggle_loop action cs j st = (r, st', tr) \<Longrightarrow>
   prefix tr (map (Invoke action) (rev (take j cs)))
   \<and> (r = None \<longrightarrow> tr = map (Invoke action) (rev (take j cs)))"
proof (induction j arbitrary: st r st' tr)
  case 0
  then show ?case by simp
next
  case (Suc j)
  from Suc.prems have j: "j < length cs" by simp
  show ?case
  proof (cases "invoke action (cs ! j) st")
    case (Inl e)
    with Suc.prems j show ?thesis by (auto simp: take_Suc_conv_app_nth)
  next
    case (Inr st1)
    obtain r2 st2 tr2 where rest: "toggle_loop action cs j st1 = (r2, st2, tr2)"
      by (cases "toggle_loop action cs j st1") auto
    with Inr Suc.prems have eq: "r = r2" "tr = Invoke action (cs ! j) # tr2" by simp_all
    from Suc.IH [OF _ rest] j eq show ?thesis
      by (simp add: take_Suc_conv_app_nth)
  qed
qed

subsection \<open>The testing loop\<close>

lemma length_walk: "length (walk P xs) \<le> length xs"
  by (induction xs) auto

lemma test_loop_show:
  "j \<le> length els \<Longrightarrow>
   fst (test_loop M p els j) = (\<exists>e \<in> set (take j els). call M p e)"
  by (induction j) (auto simp: take_Suc_conv_app_nth split: prod.splits)

lemma test_loop_trace:
  "j \<le> length els \<Longrightarrow>
   snd (test_loop M p els j) = map (Test p) (walk (call M p) (rev (take j els)))"
  by (induction j) (auto simp: take_Suc_conv_app_nth split: prod.splits)

subsection \<open>The loop over the groups\<close>

lemma members_of_Cons: "members_of ((k, g) # gs) = group_containers g @ members_of gs"
  by (simp add: members_of_def)

lemma script_Cons:
  "script M els ((k, g) # gs) = group_tests M els g @ group_calls M els g @ script M els gs"
  by (simp add: script_def)

lemma test_loop_full:
  "test_loop M (group_shouldShow g) els (length els) = (decision M els g, group_tests M els g)"
  using test_loop_show [of "length els" els M "group_shouldShow g"]
        test_loop_trace [of "length els" els M "group_shouldShow g"]
  by (simp add: decision_def group_tests_def prod_eq_iff)

lemma toggleContainers_loop:
  "toggleContainers cs (if b then ''show'' else ''hide'') st =
     toggle_loop (if b then ''show'' else ''hide'') cs (length cs) st"
  by (simp add: toggleContainers_def)

lemma groups_loop_Cons:
  assumes "toggle_loop (if decision M els g then ''show'' else ''hide'')
             (group_containers g) (length (group_containers g)) st = (r1, st1, tr1)"
  shows "groups_loop M els ((k, g) # gs) st =
           (case r1 of
              Some e \<Rightarrow> (Some e, st1, group_tests M els g @ tr1)
            | None \<Rightarrow> (case groups_loop M els gs st1 of
                         (r, st', tr) \<Rightarrow> (r, st', group_tests M els g @ tr1 @ tr)))"
  using assms by (simp add: test_loop_full toggleContainers_loop split: option.splits)

lemma groups_loop_kept:
  "groups_loop M els gs st = (r, st', tr) \<Longrightarrow> registry_kept st st'"
proof (induction gs arbitrary: st r st' tr)
  case Nil
  then show ?case by (simp add: registry_kept_refl)
next
  case (Cons kg gs)
  obtain k g where kg: "kg = (k, g)" by (cases kg)
  obtain r1 st1 tr1 where
    t: "toggle_loop (if decision M els g then ''show'' else ''hide'')
          (group_containers g) (length (group_containers g)) st = (r1, st1, tr1)"
    using prod_cases3 by blast
  note k1 = toggle_loop_kept [OF t]
  show ?case
  proof (cases r1)
    case (Some e)
    with Cons.prems k1 show ?thesis by (simp add: kg groups_loop_Cons [OF t] del: groups_loop.simps)
  next
    case None
    obtain r2 st2 tr2 where rest: "groups_loop M els gs st1 = (r2, st2, tr2)"
      using prod_cases3 by blast
    with None Cons.prems have "st' = st2" by (simp add: kg groups_loop_Cons [OF t] del: groups_loop.simps)
    with Cons.IH [OF rest] k1 show ?thesis by (blast intro: registry_kept_trans)
  qed
qed



lemma groups_loop_trace:
  "groups_loop M els gs st = (r, st', tr) \<Longrightarrow>
   prefix tr (script M els gs) \<and> (r = None \<longrightarrow> tr = script M els gs)"
proof (induction gs arbitrary: st r st' tr)
  case Nil
  then show ?case by (simp add: script_def)
next
  case (Cons kg gs)
  obtain k g where kg: "kg = (k, g)" by (cases kg)
  obtain r1 st1 tr1 where
    t: "toggle_loop (if decision M els g then ''show'' else ''hide'')
          (group_containers g) (length (group_containers g)) st = (r1, st1, tr1)"
    using prod_cases3 by blast
  from toggle_loop_trace [OF _ t]
  have tr1: "prefix tr1 (group_calls M els g)" "r1 = None \<longrightarrow> tr1 = group_calls M els g"
    by (simp_all add: group_calls_def)
  show ?case
  proof (cases r1)
    case (Some e)
    with Cons.prems have "r = Some e" "tr = group_tests M els g @ tr1"
      by (simp_all add: kg groups_loop_Cons [OF t] del: groups_loop.simps)
    with tr1(1) show ?thesis
      by (simp add: kg script_Cons prefix_def) (metis append.assoc)
  next
    case None
    obtain r2 st2 tr2 where rest: "groups_loop M els gs st1 = (r2, st2, tr2)"
      using prod_cases3 by blast
    with None Cons.prems have "r = r2" "tr = group_tests M els g @ tr1 @ tr2"
      by (simp_all add: kg groups_loop_Cons [OF t] del: groups_loop.simps)
    with Cons.IH [OF rest] tr1(2) None show ?thesis
      by (simp add: kg script_Cons)
  qed
qed

subsection \<open>The invariant of the registry\<close>

lemma invariant_initial: "invariant initial"
  by (simp add: invariant_def initial_def members_of_def)

lemma invariant_kept:
  assumes "invariant st" and "showGroups st' = showGroups st"
    and "length (heap st') = length (heap st)"
    and "\<forall>i. showOn (heap st' ! i) = showOn (heap st ! i) \<and>
             shouldShow (heap st' ! i) = shouldShow (heap st ! i)"
  shows "invariant st'"
  using assms unfolding invariant_def by simp

lemma invariant_render:
  assumes "invariant st"
  shows "invariant (Container_render c st)"
proof (rule invariant_kept [OF assms])
  show "\<forall>i. showOn (heap (Container_render c st) ! i) = showOn (heap st ! i) \<and>
           shouldShow (heap (Container_render c st) ! i) = shouldShow (heap st ! i)"
    by (cases "c < length (heap st)")
       (auto simp: Container_render_def nth_list_update list_update_beyond not_less)
qed (simp_all add: Container_render_def)

lemma invariant_registry_kept:
  "invariant st \<Longrightarrow> registry_kept st st' \<Longrightarrow> invariant st'"
  by (rule invariant_kept [of st st']) (simp_all add: registry_kept_def)

lemma keys_map_entry: "map fst (AList.map_entry k f gs) = map fst gs"
  by (induction gs) auto

lemma members_of_push:
  "map_of gs k = Some g \<Longrightarrow>
   \<exists>xs ys. members_of gs = xs @ ys \<and> members_of (AList.map_entry k (push c) gs) = xs @ c # ys"
proof (induction gs)
  case Nil
  then show ?case by simp
next
  case (Cons kg gs)
  obtain k0 g0 where kg: "kg = (k0, g0)" by (cases kg)
  show ?case
  proof (cases "k0 = k")
    case True
    have "members_of (kg # gs) = group_containers g0 @ members_of gs"
      "members_of (AList.map_entry k (push c) (kg # gs)) =
         group_containers g0 @ c # members_of gs"
      using True by (simp_all add: kg members_of_def)
    then show ?thesis by blast
  next
    case False
    with Cons.prems have "map_of gs k = Some g" by (simp add: kg)
    from Cons.IH [OF this] obtain xs ys where
      "members_of gs = xs @ ys" "members_of (AList.map_entry k (push c) gs) = xs @ c # ys"
      by blast
    with False have "members_of (kg # gs) = (group_containers g0 @ xs) @ ys"
      "members_of (AList.map_entry k (push c) (kg # gs)) = (group_containers g0 @ xs) @ c # ys"
      by (simp_all add: kg members_of_def)
    then show ?thesis by blast
  qed
qed

lemma set_map_entry:
  "(k', g') \<in> set (AList.map_entry k f gs) \<Longrightarrow>
   (k', g') \<in> set gs \<or> (k' = k \<and> (\<exists>g0. (k, g0) \<in> set gs \<and> g' = f g0))"
  by (induction gs) (auto split: if_splits)

subsection \<open>Construction keeps the invariant\<close>

lemma Container_constructor_Inr:
  assumes "Container_constructor settings st = Inr (c, st')"
  shows "\<exists>v k. settings = Some v \<and> generateKeyForShowOnValue v = Inr k \<and>
           c = length (heap st) \<and>
           ((\<exists>g. map_of (showGroups st) k = Some g \<and>
                 showGroups st' = AList.map_entry k (push c) (showGroups st) \<and>
                 heap st' = heap st @ [(new_object v)\<lparr>shouldShow := group_shouldShow g\<rparr>] \<and>
                 closures st' = closures st)
            \<or> (map_of (showGroups st) k = None \<and>
                showGroups st' = showGroups st @
                  [(k, \<lparr>group_shouldShow = fst (coerceShowOnToPredicate v (closures st)),
                        group_containers = [c]\<rparr>)] \<and>
                heap st' = heap st @
                  [(new_object v)\<lparr>shouldShow := fst (coerceShowOnToPredicate v (closures st))\<rparr>] \<and>
                closures st' = snd (coerceShowOnToPredicate v (closures st))))"
proof -
  from assms obtain v where v: "settings = Some v"
    by (cases settings) (simp_all add: Container_constructor_def)
  have obj: "showOn (new_object v) = v" by (simp add: new_object_def)
  from assms v obtain k where k: "generateKeyForShowOnValue v = Inr k"
    by (cases "generateKeyForShowOnValue v")
       (simp_all add: Container_constructor_def addToShowGroup_def obj)
  from assms v k have c: "c = length (heap st)"
    by (auto simp: Container_constructor_def addToShowGroup_def obj
             split: option.splits prod.splits)
  show ?thesis
  proof (cases "map_of (showGroups st) k")
    case None
    with assms v k c show ?thesis
      by (auto simp: Container_constructor_def addToShowGroup_def obj split: prod.splits)
  next
    case (Some g)
    with assms v k c show ?thesis
      by (auto simp: Container_constructor_def addToShowGroup_def obj)
  qed
qed

lemma invariantI:
  assumes "distinct (map fst (showGroups st))"
    and "distinct (members_of (showGroups st))"
    and "set (members_of (showGroups st)) = {..<length (heap st)}"
    and "\<And>k g. (k, g) \<in> set (showGroups st) \<Longrightarrow>
        group_containers g \<noteq> [] \<and> sorted_wrt (<) (group_containers g) \<and>
        (\<forall>c \<in> set (group_containers g).
           generateKeyForShowOnValue (showOn (heap st ! c)) = Inr k \<and>
           shouldShow (heap st ! c) = group_shouldShow g)"
  shows "invariant st"
  unfolding invariant_def
proof (intro conjI ballI)
  fix x assume x: "x \<in> set (showGroups st)"
  obtain k g where "x = (k, g)" by (cases x)
  with assms(4) [of k g] x
  show "case x of (k, g) \<Rightarrow>
        group_containers g \<noteq> [] \<and> sorted_wrt (<) (group_containers g) \<and>
        (\<forall>c \<in> set (group_containers g).
           generateKeyForShowOnValue (showOn (heap st ! c)) = Inr k \<and>
           shouldShow (heap st ! c) = group_shouldShow g)"
    by simp
qed (rule assms)+

lemma invariant_constructor:
  assumes inv: "invariant st" and new: "Container_constructor settings st = Inr (c, st')"
  shows "invariant st'"
proof -
  let ?gs = "showGroups st" and ?h = "heap st"
  from Container_constructor_Inr [OF new] obtain v k where
    k: "generateKeyForShowOnValue v = Inr k" and c: "c = length ?h" and
    cases: "(\<exists>g. map_of ?gs k = Some g \<and>
                 showGroups st' = AList.map_entry k (push c) ?gs \<and>
                 heap st' = ?h @ [(new_object v)\<lparr>shouldShow := group_shouldShow g\<rparr>] \<and>
                 closures st' = closures st)
            \<or> (map_of ?gs k = None \<and>
                showGroups st' = ?gs @
                  [(k, \<lparr>group_shouldShow = fst (coerceShowOnToPredicate v (closures st)),
                        group_containers = [c]\<rparr>)] \<and>
                heap st' = ?h @
                  [(new_object v)\<lparr>shouldShow := fst (coerceShowOnToPredicate v (closures st))\<rparr>] \<and>
                closures st' = snd (coerceShowOnToPredicate v (closures st)))"
    by (elim exE conjE) (rule that)
  from inv have dk: "distinct (map fst ?gs)" and dm: "distinct (members_of ?gs)"
    and sm: "set (members_of ?gs) = {..<length ?h}"
    and each: "\<And>k g. (k, g) \<in> set ?gs \<Longrightarrow>
        group_containers g \<noteq> [] \<and> sorted_wrt (<) (group_containers g) \<and>
        (\<forall>c \<in> set (group_containers g).
           generateKeyForShowOnValue (showOn (?h ! c)) = Inr k \<and>
           shouldShow (?h ! c) = group_shouldShow g)"
    by (auto simp: invariant_def)
  have below: "\<And>k g x. (k, g) \<in> set ?gs \<Longrightarrow> x \<in> set (group_containers g) \<Longrightarrow> x < c"
  proof -
    fix k g x assume "(k, g) \<in> set ?gs" "x \<in> set (group_containers g)"
    then have "x \<in> set (members_of ?gs)" by (auto simp: members_of_def)
    with sm c show "x < c" by simp
  qed
  have fresh: "c \<notin> set (members_of ?gs)" using sm c by simp
  have obj: "showOn (new_object v) = v" by (simp add: new_object_def)
  from cases show ?thesis
  proof (elim disjE exE conjE)
    fix g
    assume g: "map_of ?gs k = Some g"
      and gs': "showGroups st' = AList.map_entry k (push c) ?gs"
      and h': "heap st' = ?h @ [(new_object v)\<lparr>shouldShow := group_shouldShow g\<rparr>]"
    from members_of_push [OF g, of c] obtain xs ys where
      m: "members_of ?gs = xs @ ys" "members_of (showGroups st') = xs @ c # ys"
      by (auto simp: gs')
    have 1: "distinct (map fst (showGroups st'))"
      using dk by (simp add: gs' keys_map_entry)
    have 2: "distinct (members_of (showGroups st'))"
      using dm fresh m by auto
    have "set (members_of (showGroups st')) = insert c (set (members_of ?gs))"
      by (simp add: m)
    also have "\<dots> = {..<Suc c}" by (simp add: sm c lessThan_Suc)
    finally have 3: "set (members_of (showGroups st')) = {..<length (heap st')}"
      by (simp add: h' c)
    have 4: "group_containers g' \<noteq> [] \<and> sorted_wrt (<) (group_containers g') \<and>
        (\<forall>x \<in> set (group_containers g').
           generateKeyForShowOnValue (showOn (heap st' ! x)) = Inr k' \<and>
           shouldShow (heap st' ! x) = group_shouldShow g')"
      if mem: "(k', g') \<in> set (showGroups st')" for k' g'
    proof -
      from set_map_entry [OF mem [unfolded gs']]
      consider "(k', g') \<in> set ?gs"
        | g0 where "k' = k" "(k, g0) \<in> set ?gs" "g' = push c g0" by blast
      then show ?thesis
      proof cases
        case 1
        from below [OF 1] c have "\<forall>x \<in> set (group_containers g'). heap st' ! x = ?h ! x"
          by (simp add: h' nth_append)
        with each [OF 1] show ?thesis by simp
      next
        case 2
        from dk 2(2) g have g0: "g0 = g" by simp
        from below [OF 2(2)] c
        have old: "\<forall>x \<in> set (group_containers g0). heap st' ! x = ?h ! x \<and> x < c"
          by (simp add: h' nth_append)
        have new: "heap st' ! c = (new_object v)\<lparr>shouldShow := group_shouldShow g\<rparr>"
          by (simp add: h' c)
        from each [OF 2(2)] old new show ?thesis
          by (auto simp: 2 g0 sorted_wrt_append obj k)
      qed
    qed
    from 1 2 3 4 show ?thesis by (rule invariantI)
  next
    let ?p = "fst (coerceShowOnToPredicate v (closures st))"
    assume none: "map_of ?gs k = None"
      and gs': "showGroups st' = ?gs @ [(k, \<lparr>group_shouldShow = ?p, group_containers = [c]\<rparr>)]"
      and h': "heap st' = ?h @ [(new_object v)\<lparr>shouldShow := ?p\<rparr>]"
    from none have kfresh: "k \<notin> fst ` set ?gs" by (simp add: map_of_eq_None_iff)
    have m: "members_of (showGroups st') = members_of ?gs @ [c]"
      by (simp add: gs' members_of_def)
    have 1: "distinct (map fst (showGroups st'))"
      using dk kfresh by (simp add: gs')
    have 2: "distinct (members_of (showGroups st'))"
      using dm fresh by (simp add: m)
    have "set (members_of (showGroups st')) = insert c (set (members_of ?gs))"
      by (simp add: m)
    also have "\<dots> = {..<Suc c}" by (simp add: sm c lessThan_Suc)
    finally have 3: "set (members_of (showGroups st')) = {..<length (heap st')}"
      by (simp add: h' c)
    have 4: "group_containers g' \<noteq> [] \<and> sorted_wrt (<) (group_containers g') \<and>
        (\<forall>x \<in> set (group_containers g').
           generateKeyForShowOnValue (showOn (heap st' ! x)) = Inr k' \<and>
           shouldShow (heap st' ! x) = group_shouldShow g')"
      if mem: "(k', g') \<in> set (showGroups st')" for k' g'
    proof -
      from mem consider "(k', g') \<in> set ?gs"
        | "k' = k" "g' = \<lparr>group_shouldShow = ?p, group_containers = [c]\<rparr>"
        by (auto simp: gs')
      then show ?thesis
      proof cases
        case 1
        from below [OF 1] c have "\<forall>x \<in> set (group_containers g'). heap st' ! x = ?h ! x"
          by (simp add: h' nth_append)
        with each [OF 1] show ?thesis by simp
      next
        case 2
        have "heap st' ! c = (new_object v)\<lparr>shouldShow := ?p\<rparr>"
          by (simp add: h' c)
        then show ?thesis by (simp add: 2 obj k)
      qed
    qed
    from 1 2 3 4 show ?thesis by (rule invariantI)
  qed
qed

lemma invariant_step: "invariant st \<Longrightarrow> invariant (step M st op)"
proof (cases op)
  case (New settings)
  assume "invariant st"
  with New show ?thesis
    by (cases "Container_constructor settings st") (auto intro: invariant_constructor)
next
  case (Render c)
  assume "invariant st"
  with Render show ?thesis by (simp add: invariant_render)
next
  case (ShowContainersForElements els)
  assume inv: "invariant st"
  obtain r st' tr where
    g: "groups_loop M (test_sequence els) (showGroups st) st = (r, st', tr)"
    using prod_cases3 by blast
  from invariant_registry_kept [OF inv groups_loop_kept [OF g]] g ShowContainersForElements
  show ?thesis by (simp add: showContainersForElements_def)
qed

lemma invariant_foldl: "invariant st \<Longrightarrow> invariant (foldl (step M) st ops)"
  by (induction ops arbitrary: st) (simp_all add: invariant_step)

lemma invariant_run: "invariant (run M ops)"
  by (simp add: run_def invariant_foldl invariant_initial)

lemma groups_le_members:
  "\<forall>(k, g) \<in> set gs. group_containers g \<noteq> [] \<Longrightarrow> length gs \<le> length (members_of gs)"
proof (induction gs)
  case Nil
  then show ?case by simp
next
  case (Cons kg gs)
  obtain k g where kg: "kg = (k, g)" by (cases kg)
  from Cons.prems have "group_containers g \<noteq> []" by (simp add: kg)
  then have "1 \<le> length (group_containers g)" by (cases "group_containers g") simp_all
  with Cons show ?case by (simp add: kg members_of_Cons)
qed

lemma invariant_groups_le_containers:
  assumes "invariant st"
  shows "length (showGroups st) \<le> length (heap st)"
proof -
  from assms have ne: "\<forall>(k, g) \<in> set (showGroups st). group_containers g \<noteq> []"
    and d: "distinct (members_of (showGroups st))"
    and s: "set (members_of (showGroups st)) = {..<length (heap st)}"
    by (auto simp: invariant_def)
  from d have "length (members_of (showGroups st)) = card (set (members_of (showGroups st)))"
    by (simp add: distinct_card)
  also have "\<dots> = length (heap st)" by (simp add: s)
  finally show ?thesis using groups_le_members [OF ne] by simp
qed

lemma filter_group_tests:
  "filter is_Test (group_tests M els g) = group_tests M els g"
  "filter (\<lambda>e. \<not> is_Test e) (group_tests M els g) = []"
  by (simp_all add: group_tests_def filter_map o_def)

lemma filter_group_calls:
  "filter is_Test (group_calls M els g) = []"
  "filter (\<lambda>e. \<not> is_Test e) (group_calls M els g) = group_calls M els g"
  by (simp_all add: group_calls_def filter_map o_def)

lemma filter_script:
  "filter is_Test (script M els gs) = all_tests M els gs"
  "filter (\<lambda>e. \<not> is_Test e) (script M els gs) = all_calls M els gs"
  by (induction gs)
     (auto simp: script_def all_tests_def all_calls_def filter_group_tests filter_group_calls)

lemma length_all_tests: "length (all_tests M els gs) \<le> length gs * length els"
proof (induction gs)
  case Nil
  then show ?case by (simp add: all_tests_def)
next
  case (Cons kg gs)
  obtain k g where kg: "kg = (k, g)" by (cases kg)
  have "length (group_tests M els g) \<le> length els"
    using length_walk [of "call M (group_shouldShow g)" "rev els"]
    by (simp add: group_tests_def)
  moreover have "all_tests M els (kg # gs) = group_tests M els g @ all_tests M els gs"
    by (simp add: all_tests_def kg)
  ultimately show ?case using Cons by simp
qed

lemma showContainersForElements_unfold:
  assumes "groups_loop M (test_sequence elements) (showGroups st) st = (r, st', tr)"
  shows "raised (showContainersForElements M elements st) = r"
    "state_after (showContainersForElements M elements st) = st'"
    "trace (showContainersForElements M elements st) = tr"
  using assms by (simp_all add: showContainersForElements_def)

lemma length_test_sequence:
  "length (test_sequence elements) = (case elements of Some a \<Rightarrow> length a | None \<Rightarrow> 0) + 1"
  by (simp add: test_sequence_def split: option.splits)

subsection \<open>The argument array\<close>

lemma argument_after_Some:
  "argument_after (showContainersForElements M (Some a) st) = Some (a @ [None])"
  by (simp add: showContainersForElements_def split: prod.splits)

lemma repeated_calls_Some:
  "fst (repeated_calls M n (Some a) st) = Some (a @ replicate n None)"
proof (induction n arbitrary: a st)
  case 0
  then show ?case by simp
next
  case (Suc n)
  have "a @ None # replicate n None = (a @ [None]) @ replicate n None" by simp
  with Suc show ?case by (simp only: repeated_calls.simps argument_after_Some replicate_Suc)
qed

subsection \<open>The order of the method calls\<close>

lemma toggleContainers_trace:
  "prefix (snd (snd (toggleContainers cs action st))) (map (Invoke action) (rev cs))"
  "fst (toggleContainers cs action st) = None \<and> (action = ''show'' \<or> action = ''hide'') \<longrightarrow>
     snd (snd (toggleContainers cs action st)) = map (Invoke action) (rev cs)"
proof -
  obtain r st' tr where t: "toggle_loop action cs (length cs) st = (r, st', tr)"
    using prod_cases3 by blast
  from toggle_loop_trace [OF _ t]
  have "prefix tr (map (Invoke action) (rev cs))"
    "r = None \<longrightarrow> tr = map (Invoke action) (rev cs)" by simp_all
  with t show
    "prefix (snd (snd (toggleContainers cs action st))) (map (Invoke action) (rev cs))"
    "fst (toggleContainers cs action st) = None \<and> (action = ''show'' \<or> action = ''hide'') \<longrightarrow>
       snd (snd (toggleContainers cs action st)) = map (Invoke action) (rev cs)"
    by (auto simp: toggleContainers_def)
qed

subsection \<open>Members stay\<close>

lemma step_keeps_members:
  assumes "map_of (showGroups st) k = Some g"
  shows "\<exists>g'. map_of (showGroups (step M st op)) k = Some g' \<and>
           group_shouldShow g' = group_shouldShow g \<and>
           prefix (group_containers g) (group_containers g')"
proof (cases op)
  case (New settings)
  show ?thesis
  proof (cases "Container_constructor settings st")
    case (Inl e)
    with New assms show ?thesis by simp
  next
    case (Inr cst)
    obtain c st' where cst: "cst = (c, st')" by (cases cst)
    from Container_constructor_Inr [OF Inr [unfolded cst]] obtain k0 where
      "(\<exists>g0. map_of (showGroups st) k0 = Some g0 \<and>
           showGroups st' = AList.map_entry k0 (push c) (showGroups st))
       \<or> (map_of (showGroups st) k0 = None \<and>
           (\<exists>x. showGroups st' = showGroups st @ [(k0, x)]))"
      by blast
    then have "\<exists>g'. map_of (showGroups st') k = Some g' \<and>
           group_shouldShow g' = group_shouldShow g \<and>
           prefix (group_containers g) (group_containers g')"
    proof (elim disjE exE conjE)
      fix g0 assume "map_of (showGroups st) k0 = Some g0"
        and "showGroups st' = AList.map_entry k0 (push c) (showGroups st)"
      with assms show ?thesis by (cases "k = k0") (simp_all add: map_of_map_entry)
    next
      fix x assume "map_of (showGroups st) k0 = None"
        and "showGroups st' = showGroups st @ [(k0, x)]"
      with assms show ?thesis by (simp add: map_add_Some_iff)
    qed
    with New Inr cst show ?thesis by simp
  qed
next
  case (Render c)
  with assms show ?thesis by (simp add: Container_render_def)
next
  case (ShowContainersForElements els)
  obtain r st' tr where
    g: "groups_loop M (test_sequence els) (showGroups st) st = (r, st', tr)"
    using prod_cases3 by blast
  from groups_loop_kept [OF g] have "showGroups st' = showGroups st"
    by (simp add: registry_kept_def)
  with assms ShowContainersForElements showContainersForElements_unfold(2) [OF g]
  show ?thesis by simp
qed

lemma foldl_step_keeps_members:
  "map_of (showGroups st) k = Some g \<Longrightarrow>
   \<exists>g'. map_of (showGroups (foldl (step M) st ops)) k = Some g' \<and>
        group_shouldShow g' = group_shouldShow g \<and>
        prefix (group_containers g) (group_containers g')"
proof (induction ops arbitrary: st g)
  case Nil
  then show ?case by simp
next
  case (Cons op ops)
  from step_keeps_members [OF Cons.prems, of M op] obtain g1 where
    1: "map_of (showGroups (step M st op)) k = Some g1"
       "group_shouldShow g1 = group_shouldShow g"
       "prefix (group_containers g) (group_containers g1)" by blast
  from Cons.IH [OF 1(1)] obtain g' where
    "map_of (showGroups (foldl (step M) (step M st op) ops)) k = Some g'"
    "group_shouldShow g' = group_shouldShow g1"
    "prefix (group_containers g1) (group_containers g')" by blast
  with 1 show ?case by (auto intro: prefix_order.trans)
qed

subsection \<open>What changes a \<^verbatim>\<open>visible\<close> flag\<close>

lemma constructed_container:
  assumes "Container_constructor settings st = Inr (c, st')"
  shows "c = length (heap st) \<and> length (heap st') = Suc (length (heap st)) \<and>
         visible (heap st' ! c) \<and> element (heap st' ! c) = None \<and>
         settings = Some (showOn (heap st' ! c)) \<and>
         (\<forall>i < length (heap st). heap st' ! i = heap st ! i)"
  using Container_constructor_Inr [OF assms]
  by (auto simp: new_object_def Container_prototype_def nth_append)

lemma render_keeps_visible:
  "visible (heap (Container_render c st) ! i) = visible (heap st ! i)"
  by (cases "c < length (heap st)")
     (auto simp: Container_render_def nth_list_update list_update_beyond not_less)

lemma only_evaluation_changes_visible:
  assumes "i < length (heap st)"
    and "visible (heap (step M st op) ! i) \<noteq> visible (heap st ! i)"
  shows "\<exists>elements. op = ShowContainersForElements elements"
proof (cases op)
  case (New settings)
  with assms constructed_container [of settings st] show ?thesis
    by (cases "Container_constructor settings st") auto
next
  case (Render c)
  with assms render_keeps_visible [of c st i] show ?thesis
    by (cases "c < length (heap st)") simp_all
next
  case (ShowContainersForElements elements)
  then show ?thesis by simp
qed

lemmas evaluation =
  run_def initial_def Container_constructor_def addToShowGroup_def
  generateKeyForShowOnValue_def new_object_def Container_prototype_def
  Container_render_def showContainersForElements_def test_sequence_def
  toggleContainers_def invoke_def Container_show_def Container_hide_def
  tag_is_def toolbar_def null_tests_def pair_def unrendered_def

section \<open>Keys\<close>

text \<open>
  C3. The key of the boolean \<^verbatim>\<open>true\<close> is \<^verbatim>\<open>"boolean:true"\<close> and the key of the string
  \<^verbatim>\<open>"true"\<close> is \<^verbatim>\<open>"string:true"\<close>, two different strings; for \<^verbatim>\<open>undefined\<close> the function
  returns no key: \<^verbatim>\<open>showOn.toString()\<close> raises a \<^verbatim>\<open>TypeError\<close>.
\<close>

theorem generateKeyForShowOnValue_undefined_raises:
  "generateKeyForShowOnValue (VBoolean True) = Inr ''boolean:true''
   \<and> generateKeyForShowOnValue (VString ''true'') = Inr ''string:true''
   \<and> generateKeyForShowOnValue (VBoolean True) \<noteq> generateKeyForShowOnValue (VString ''true'')
   \<and> generateKeyForShowOnValue VUndefined = Inl TypeError"
  by (simp add: generateKeyForShowOnValue_def)

section \<open>Coercion of a show-condition to a predicate\<close>

text \<open>
  C5. \<^verbatim>\<open>coerceShowOnToPredicate\<close> returns a function unchanged and allocates nothing;
  for a boolean it returns a predicate that answers that boolean on every argument; for
  a string, a predicate that answers on an element whether the element matches the
  string as a selector, and on \<^verbatim>\<open>null\<close> false; for \<^verbatim>\<open>undefined\<close>, a predicate that is
  always true; for every other kind (\<^verbatim>\<open>null\<close>, numbers, arrays, dates, regular
  expressions, objects, errors), a predicate that is always false.
\<close>

theorem coerceShowOnToPredicate_kinds:
  "coerceShowOnToPredicate (VFunction f) n = (f, n)
   \<and> call jQuery_is (fst (coerceShowOnToPredicate (VBoolean b) n)) el = b
   \<and> call jQuery_is (fst (coerceShowOnToPredicate (VString s) n)) (Some e) = jQuery_is e s
   \<and> call jQuery_is (fst (coerceShowOnToPredicate (VString s) n)) None = False
   \<and> call jQuery_is (fst (coerceShowOnToPredicate VUndefined n)) el = True
   \<and> call jQuery_is (fst (coerceShowOnToPredicate VNull n)) el = False
   \<and> call jQuery_is (fst (coerceShowOnToPredicate (VOther k t) n)) el = False"
  by simp

section \<open>The number of predicate calls\<close>

text \<open>
  C6. In a state reached by any run, with \<open>K\<close> groups and \<open>N\<close> containers, the predicate
  calls of one evaluation pass are an initial part of this list (all of it when the pass
  returns): group after group, the group's predicate called on the entries of the test
  sequence from the last to the first and no further than the first call that answers
  true. So there are at most \<open>K * (|elements| + 1)\<close> calls; \<open>K\<close> is at most \<open>N\<close>, and when
  containers share a group (\<open>K < N\<close>) the number of calls stays below
  \<open>N * (|elements| + 1)\<close>.
\<close>

theorem predicate_evaluations_bounded:
  fixes M :: "'e \<Rightarrow> string \<Rightarrow> bool" and ops elements
  defines "st \<equiv> run M ops"
  defines "res \<equiv> showContainersForElements M elements st"
  shows "prefix (filter is_Test (trace res)) (all_tests M (test_sequence elements) (showGroups st))
    \<and> (raised res = None \<longrightarrow>
         filter is_Test (trace res) = all_tests M (test_sequence elements) (showGroups st))
    \<and> length (filter is_Test (trace res)) \<le>
         length (showGroups st) * ((case elements of Some a \<Rightarrow> length a | None \<Rightarrow> 0) + 1)
    \<and> length (showGroups st) \<le> length (heap st)
    \<and> (length (showGroups st) < length (heap st) \<longrightarrow>
         length (filter is_Test (trace res)) <
           length (heap st) * ((case elements of Some a \<Rightarrow> length a | None \<Rightarrow> 0) + 1))"
proof -
  let ?els = "test_sequence elements" and ?gs = "showGroups st"
  obtain r st' tr where g: "groups_loop M ?els ?gs st = (r, st', tr)"
    using prod_cases3 by blast
  note u = showContainersForElements_unfold [OF g]
  from groups_loop_trace [OF g]
  have p: "prefix tr (script M ?els ?gs)" and e: "r = None \<longrightarrow> tr = script M ?els ?gs"
    by simp_all
  from filter_mono_prefix [OF p, of is_Test]
  have 1: "prefix (filter is_Test tr) (all_tests M ?els ?gs)" by (simp add: filter_script)
  from e have 2: "r = None \<longrightarrow> filter is_Test tr = all_tests M ?els ?gs"
    by (auto simp: filter_script)
  from prefix_length_le [OF 1] length_all_tests [of M ?els ?gs]
  have 3: "length (filter is_Test tr) \<le> length ?gs * length ?els" by simp
  have 4: "length ?gs \<le> length (heap st)"
    unfolding st_def by (rule invariant_groups_le_containers) (rule invariant_run)
  have 5: "length (filter is_Test tr) < length (heap st) * length ?els"
    if "length ?gs < length (heap st)"
  proof -
    have "0 < length ?els" by (simp add: length_test_sequence)
    with that have "length ?gs * length ?els < length (heap st) * length ?els" by simp
    with 3 show ?thesis by (rule le_less_trans)
  qed
  from 1 2 3 4 5 show ?thesis
    unfolding res_def u by (simp add: length_test_sequence)
qed

theorem predicate_evaluations_bounded_witness:
  "length (showGroups (run tag_is toolbar)) = 2
   \<and> length (heap (run tag_is toolbar)) = 3
   \<and> raised (showContainersForElements tag_is (Some [Some ''div'']) (run tag_is toolbar)) = None
   \<and> filter is_Test
         (trace (showContainersForElements tag_is (Some [Some ''div'']) (run tag_is toolbar))) =
       [Test (ReturnShowOn 0 True) None, Test (IsShowOn 1 ''img'') None,
        Test (IsShowOn 1 ''img'') (Some ''div'')]
   \<and> length (filter is_Test
         (trace (showContainersForElements tag_is (Some [Some ''div'']) (run tag_is toolbar))))
       < 3 * 2"
  using predicate_evaluations_bounded [of tag_is "Some [Some ''div'']" toolbar]
  by (simp add: evaluation all_tests_def group_tests_def)

section \<open>Visibility after an evaluation pass\<close>




section \<open>One predicate instance for each group\<close>

text \<open>
  C2. In a state reached by any run of the module (any sequence of registrations,
  interleaved with rendering and evaluation passes), two containers whose
  \<^verbatim>\<open>showOn\<close> values have the same key hold the same function object in
  \<^verbatim>\<open>shouldShow\<close>, and it is the predicate of the one group that has both as members;
  and the invariant holds: every member of a group has the group's key and the group's
  predicate, and no container is a member twice, of one group or of two.
\<close>

theorem predicate_shared_in_group:
  fixes M :: "'e \<Rightarrow> string \<Rightarrow> bool" and ops
  defines "st \<equiv> run M ops"
  shows "(\<forall>c1 < length (heap st). \<forall>c2 < length (heap st).
            generateKeyForShowOnValue (showOn (heap st ! c1)) =
              generateKeyForShowOnValue (showOn (heap st ! c2)) \<longrightarrow>
            shouldShow (heap st ! c1) = shouldShow (heap st ! c2) \<and>
            (\<exists>(k, g) \<in> set (showGroups st).
               c1 \<in> set (group_containers g) \<and> c2 \<in> set (group_containers g) \<and>
               shouldShow (heap st ! c1) = group_shouldShow g))
    \<and> invariant st"
proof -
  let ?gs = "showGroups st"
  have inv: "invariant st" unfolding st_def by (rule invariant_run)
  then have dk: "distinct (map fst ?gs)"
    and s: "set (members_of ?gs) = {..<length (heap st)}"
    and each: "\<And>k g c. (k, g) \<in> set ?gs \<Longrightarrow> c \<in> set (group_containers g) \<Longrightarrow>
           generateKeyForShowOnValue (showOn (heap st ! c)) = Inr k \<and>
           shouldShow (heap st ! c) = group_shouldShow g"
    by (auto simp: invariant_def)
  have group_of: "\<exists>k g. (k, g) \<in> set ?gs \<and> c \<in> set (group_containers g)"
    if "c < length (heap st)" for c
  proof -
    from that s have "c \<in> set (members_of ?gs)" by simp
    then show ?thesis by (auto simp: members_of_def)
  qed
  have "shouldShow (heap st ! c1) = shouldShow (heap st ! c2) \<and>
        (\<exists>(k, g) \<in> set ?gs. c1 \<in> set (group_containers g) \<and> c2 \<in> set (group_containers g) \<and>
           shouldShow (heap st ! c1) = group_shouldShow g)"
    if c: "c1 < length (heap st)" "c2 < length (heap st)"
      and key: "generateKeyForShowOnValue (showOn (heap st ! c1)) =
                generateKeyForShowOnValue (showOn (heap st ! c2))"
    for c1 c2
  proof -
    from group_of [OF c(1)] obtain k1 g1 where
      1: "(k1, g1) \<in> set ?gs" "c1 \<in> set (group_containers g1)" by blast
    from group_of [OF c(2)] obtain k2 g2 where
      2: "(k2, g2) \<in> set ?gs" "c2 \<in> set (group_containers g2)" by blast
    from each [OF 1] each [OF 2] key have "k1 = k2" by simp
    with dk 1(1) 2(1) have "g1 = g2" by (meson eq_key_imp_eq_value)
    with each [OF 1] each [OF 2] 1 2 show ?thesis by auto
  qed
  with inv show ?thesis by blast
qed

theorem predicate_shared_in_group_witness:
  "shouldShow (heap (run tag_is null_tests) ! 0) = shouldShow (heap (run tag_is null_tests) ! 2)
   \<and> showOn (heap (run tag_is null_tests) ! 0) \<noteq> showOn (heap (run tag_is null_tests) ! 2)
   \<and> map (group_containers \<circ> snd) (showGroups (run tag_is null_tests)) = [[0, 2], [1]]"
  using predicate_shared_in_group [of tag_is null_tests]
  by (simp add: evaluation)

section \<open>The caller's array\<close>

text \<open>
  C9. Called with an object that has a \<^verbatim>\<open>push\<close> function, in any state,
  \<^verbatim>\<open>showContainersForElements\<close> leaves the caller's array with one more entry at its
  end, \<^verbatim>\<open>null\<close>; after \<open>n\<close> calls in a row with the same array it ends with \<open>n\<close>
  such entries. This holds also when the call raises, as the entry is pushed first.
\<close>

theorem argument_array_gets_sentinel:
  "argument_after (showContainersForElements M (Some a) st) = Some (a @ [None])
   \<and> fst (repeated_calls M n (Some a) st) = Some (a @ replicate n None)
   \<and> argument_after (showContainersForElements M None st) = None"
  by (simp add: argument_after_Some repeated_calls_Some)
     (simp add: showContainersForElements_def split: prod.splits)

section \<open>The order in which the members are toggled\<close>

text \<open>
  C10. \<^verbatim>\<open>toggleContainers\<close> calls the method on the containers of its array from the
  last index down to 0: its calls are an initial part of the reversed array, and all of
  it when no call raises. In a state reached by any run, every group lists its members
  in the order of their registration, and the method calls of an evaluation pass are
  an initial part of this list (all of it when the pass returns): group after group,
  the decided method called on the members from the last registered to the first.
\<close>

theorem members_toggled_last_to_first:
  fixes M :: "'e \<Rightarrow> string \<Rightarrow> bool" and ops elements and st0 :: "'e state" and cs action
  defines "st \<equiv> run M ops"
  defines "res \<equiv> showContainersForElements M elements st"
  shows "prefix (snd (snd (toggleContainers cs action st0))) (map (Invoke action) (rev cs))
    \<and> (fst (toggleContainers cs action st0) = None \<and> (action = ''show'' \<or> action = ''hide'') \<longrightarrow>
         snd (snd (toggleContainers cs action st0)) = map (Invoke action) (rev cs))
    \<and> (\<forall>(k, g) \<in> set (showGroups st). sorted_wrt (<) (group_containers g))
    \<and> prefix (filter (\<lambda>e. \<not> is_Test e) (trace res))
         (all_calls M (test_sequence elements) (showGroups st))
    \<and> (raised res = None \<longrightarrow>
         filter (\<lambda>e. \<not> is_Test e) (trace res) =
           all_calls M (test_sequence elements) (showGroups st))"
proof -
  let ?els = "test_sequence elements" and ?gs = "showGroups st"
  have "invariant st" unfolding st_def by (rule invariant_run)
  then have 1: "\<forall>(k, g) \<in> set ?gs. sorted_wrt (<) (group_containers g)"
    by (auto simp: invariant_def)
  obtain r st' tr where g: "groups_loop M ?els ?gs st = (r, st', tr)"
    using prod_cases3 by blast
  note u = showContainersForElements_unfold [OF g]
  from groups_loop_trace [OF g]
  have p: "prefix tr (script M ?els ?gs)" and e: "r = None \<longrightarrow> tr = script M ?els ?gs"
    by simp_all
  from filter_mono_prefix [OF p, of "\<lambda>e. \<not> is_Test e"]
  have 2: "prefix (filter (\<lambda>e. \<not> is_Test e) tr) (all_calls M ?els ?gs)"
    by (simp add: filter_script)
  from e have 3: "r = None \<longrightarrow> filter (\<lambda>e. \<not> is_Test e) tr = all_calls M ?els ?gs"
    by (auto simp: filter_script)
  from 1 2 3 toggleContainers_trace [of cs action st0] show ?thesis
    unfolding res_def u by blast
qed

theorem members_toggled_last_to_first_witness:
  "filter (\<lambda>e. \<not> is_Test e)
     (trace (showContainersForElements tag_is (Some [Some ''div'']) (run tag_is toolbar))) =
     [Invoke ''show'' 2, Invoke ''show'' 0, Invoke ''hide'' 1]
   \<and> map (group_containers \<circ> snd) (showGroups (run tag_is toolbar)) = [[0, 2], [1]]
   \<and> snd (snd (toggleContainers [0, 2] ''show'' (run tag_is toolbar))) =
       [Invoke ''show'' 2, Invoke ''show'' 0]"
  using members_toggled_last_to_first [of "[0, 2]" "''show''" "run tag_is toolbar" tag_is
    toolbar "Some [Some ''div'']"]
  by (simp add: evaluation all_calls_def group_calls_def decision_def)

section \<open>Registration of a container without a show-condition\<close>

text \<open>
  C4. In every state, constructing a container raises a \<^verbatim>\<open>TypeError\<close> exactly when
  the \<^verbatim>\<open>showOn\<close> setting is \<^verbatim>\<open>undefined\<close> or \<^verbatim>\<open>null\<close> (\<^verbatim>\<open>addToShowGroup\<close> computes the
  key first, and \<^verbatim>\<open>showOn.toString()\<close> raises), and also when no settings object is
  passed; for every other value it returns. \<^verbatim>\<open>coerceShowOnToPredicate\<close> itself has a
  predicate for both values, always true for \<^verbatim>\<open>undefined\<close> and always false for
  \<^verbatim>\<open>null\<close>, which registration never reaches.
\<close>

theorem registration_raises_on_undefined:
  "isl (Container_constructor (Some v) st) = (v = VUndefined \<or> v = VNull)
   \<and> Container_constructor (Some VUndefined) st = Inl TypeError
   \<and> Container_constructor (Some VNull) st = Inl TypeError
   \<and> Container_constructor None st = Inl TypeError
   \<and> fst (coerceShowOnToPredicate VUndefined n) = ReturnTrue n
   \<and> fst (coerceShowOnToPredicate VNull n) = ReturnFalse n"
  by (cases v)
     (simp_all add: Container_constructor_def addToShowGroup_def new_object_def
        Container_prototype_def generateKeyForShowOnValue_def
        split: option.splits prod.splits)

section \<open>The initial state of a container\<close>

text \<open>
  C8. The prototype declares \<^verbatim>\<open>visible: true\<close> and \<^verbatim>\<open>showOn: true\<close>, but the constructor
  assigns \<^verbatim>\<open>settings.showOn\<close> unconditionally: for a settings object without
  \<^verbatim>\<open>showOn\<close> the new object's \<^verbatim>\<open>showOn\<close> is \<^verbatim>\<open>undefined\<close>, not \<^verbatim>\<open>true\<close>, and the
  construction raises a \<^verbatim>\<open>TypeError\<close>.
\<close>

theorem prototype_showOn_overwritten:
  "showOn (Container_prototype :: 'e container) = VBoolean True
   \<and> visible (Container_prototype :: 'e container) = True
   \<and> showOn (new_object VUndefined :: 'e container) = VUndefined
   \<and> Container_constructor (Some VUndefined) (initial :: 'e state) = Inl TypeError"
  by (simp add: Container_constructor_def addToShowGroup_def new_object_def
        Container_prototype_def generateKeyForShowOnValue_def initial_def)

section \<open>Members are never removed\<close>

text \<open>
  C7. The module has no operation that removes a container from a group. Under every
  sequence of the operations it has, started in any state, a key that has a group keeps
  one, with the same predicate, and the group's array of members only grows at its end.
  For the containers A and B of \<open>pair\<close>, both with \<^verbatim>\<open>showOn: true\<close> and rendered, the
  group \<^verbatim>\<open>"boolean:true"\<close> holds both, and an evaluation pass on the empty array calls
  \<^verbatim>\<open>show\<close> on B and then on A and leaves both visible.
\<close>

theorem members_never_removed:
  "(map_of (showGroups st) k = Some g \<longrightarrow>
      (\<exists>g'. map_of (showGroups (foldl (step M) st ops)) k = Some g' \<and>
            group_shouldShow g' = group_shouldShow g \<and>
            prefix (group_containers g) (group_containers g')))
   \<and> map_of (showGroups (run tag_is pair)) ''boolean:true'' =
       Some \<lparr>group_shouldShow = ReturnShowOn 0 True, group_containers = [0, 1]\<rparr>
   \<and> map visible
         (heap (state_after (showContainersForElements tag_is (Some []) (run tag_is pair)))) =
       [True, True]
   \<and> filter (\<lambda>e. \<not> is_Test e)
         (trace (showContainersForElements tag_is (Some []) (run tag_is pair))) =
       [Invoke ''show'' 1, Invoke ''show'' 0]"
proof -
  have "map_of (showGroups st) k = Some g \<longrightarrow>
      (\<exists>g'. map_of (showGroups (foldl (step M) st ops)) k = Some g' \<and>
            group_shouldShow g' = group_shouldShow g \<and>
            prefix (group_containers g) (group_containers g'))"
    using foldl_step_keeps_members [of st k g M ops] by blast
  then show ?thesis by (simp add: evaluation)
qed

theorem members_never_removed_witness:
  "map_of (showGroups (run tag_is pair)) ''boolean:true'' =
     Some \<lparr>group_shouldShow = ReturnShowOn 0 True, group_containers = [0, 1]\<rparr>
   \<and> map_of (showGroups (foldl (step tag_is) (run tag_is pair)
         [ShowContainersForElements None, New (Some (VBoolean True)),
          ShowContainersForElements (Some [Some ''img''])])) ''boolean:true'' =
     Some \<lparr>group_shouldShow = ReturnShowOn 0 True, group_containers = [0, 1, 2]\<rparr>"
  using members_never_removed [of "run tag_is pair" "''boolean:true''"
    "\<lparr>group_shouldShow = ReturnShowOn 0 True, group_containers = [0, 1]\<rparr>" tag_is
    "[ShowContainersForElements None, New (Some (VBoolean True)),
      ShowContainersForElements (Some [Some ''img''])]"]
  by (simp add: evaluation)

text \<open>
  The scenario of C7 on the code: after A and B are registered there is nothing that
  unregisters B, and the next evaluation pass on the empty array calls \<^verbatim>\<open>show\<close> on B.
\<close>

theorem unregister_absent_counterexample:
  "map (group_containers \<circ> snd) (showGroups (run tag_is pair)) = [[0, 1]]
   \<and> trace (showContainersForElements tag_is (Some []) (run tag_is pair)) =
       [Test (ReturnShowOn 0 True) None, Invoke ''show'' 1, Invoke ''show'' 0]"
  by (simp add: evaluation)

end
